theory Spec2Isabelle
  imports Main "HOL-Library.Word" "HOL-Library.Signed_Division"
begin

section \<open>Errors\<close>

text \<open>
  The failures of the two classes, as values.
  \<^item> \<open>Undefined_Behaviour\<close>: the code reads through something that is not there
    (\<open>std::stack::top()\<close> of an empty stack, a cursor that designates no node). C++ gives
    no meaning to that and the code performs no check of its own.
  \<^item> \<open>Unbalanced_Call\<close>: the tree is asked to move the cursor above the root.
  \<^item> \<open>Out_Of_Range\<close>: \<open>std::out_of_range\<close> thrown by \<open>BufferExpander::validate_range\<close>,
    with its message.
\<close>

datatype error = Undefined_Behaviour | Unbalanced_Call | Out_Of_Range string

section \<open>Decimal output\<close>

text \<open>What \<open>operator<<\<close> writes for an integer: decimal digits, a minus sign when negative.\<close>

definition digit_char :: "nat \<Rightarrow> char" where
  "digit_char d = ''0123456789'' ! (d mod 10)"

fun show_nat :: "nat \<Rightarrow> string" where
  "show_nat n = (if n < 10 then [digit_char n] else show_nat (n div 10) @ [digit_char (n mod 10)])"

declare show_nat.simps [simp del]

definition show_int :: "int \<Rightarrow> string" where
  "show_int i = (if i < 0 then CHR ''-'' # show_nat (nat (- i)) else show_nat (nat i))"

text \<open>\<open>std::endl\<close>: the newline character (the flush has no effect on the content).\<close>

definition endl :: string where
  "endl = [CHR 0x0A]"

section \<open>Time\<close>

text \<open>
  A \<open>high_resolution_clock::time_point\<close> is a signed 64-bit count of clock ticks, read
  with \<open>sint\<close>; the model takes the nanosecond tick of libstdc++ and libc++. The
  difference of two time points is the 64-bit subtraction (it wraps where C++ leaves the
  overflow undefined). \<open>duration_cast<milliseconds>\<close> of a tick count is the signed
  64-bit division by the number of ticks in a millisecond, which truncates towards zero
  (\<open>sdiv\<close> on the signed values). \<open>std::chrono::milliseconds\<close> is a signed 64-bit
  count as well, and \<open>+=\<close> on it is the 64-bit addition.
\<close>

type_synonym time_point = "64 word"

definition ticks_per_ms :: int where
  "ticks_per_ms = 1000000"

definition duration_cast_ms :: "64 word \<Rightarrow> 64 word" where
  "duration_cast_ms d = word_of_int (sint d sdiv ticks_per_ms)"

section \<open>The records of callprofiler.hpp\<close>

text \<open>
  \<open>struct CallerProfile\<close>: \<open>totalTime\<close> a signed 64-bit count of milliseconds,
  \<open>callCount\<close> a C++ \<open>int\<close> (32 bits); both are read with \<open>sint\<close>, and \<open>+=\<close> and
  \<open>++\<close> are the two's-complement operations.
\<close>

record CallerProfile =
  callerName :: string
  totalTime :: "64 word"
  callCount :: "32 word"

text \<open>\<open>struct CallerInfo\<close>, the entry of the profiler's stack.\<close>

record CallerInfo =
  callerName :: string
  startTime :: time_point

section \<open>The calling-context tree\<close>

text \<open>
  Modelled from the spec: \<open>RadixTree.hpp\<close> (the classes \<open>RadixTreeNode\<close> and \<open>RadixTree\<close>)
  is included by callprofiler.hpp but is not among the sources. The spec gives a node a
  name (unique among the children of one parent), a payload, its children in the order of
  their creation, and a parent reference used only to retract the cursor. Here a node is a
  rose tree whose children are a list in creation order, and the cursor is the list of names
  on the way from the root to the current node; the parent reference is the path without its
  last name.
\<close>

datatype 'a RadixTreeNode =
  RadixTreeNode (name: string) (data: 'a) (children: "'a RadixTreeNode list")

record 'a RadixTree =
  m_root :: "'a RadixTreeNode"
  m_current_node :: "string list"

text \<open>The first child with the given name (names are keys among siblings).\<close>

fun get_child :: "string \<Rightarrow> 'a RadixTreeNode list \<Rightarrow> 'a RadixTreeNode option" where
  "get_child k [] = None"
| "get_child k (c # cs) = (if name c = k then Some c else get_child k cs)"

text \<open>The node a path of names leads to, from a given node.\<close>

fun node_at :: "'a RadixTreeNode \<Rightarrow> string list \<Rightarrow> 'a RadixTreeNode option" where
  "node_at n [] = Some n"
| "node_at n (k # ks) =
     (case get_child k (children n) of None \<Rightarrow> None | Some c \<Rightarrow> node_at c ks)"

text \<open>In-place mutation of the node a path leads to: the first child with each name.\<close>

fun map_child ::
  "string \<Rightarrow> ('a RadixTreeNode \<Rightarrow> 'a RadixTreeNode) \<Rightarrow> 'a RadixTreeNode list \<Rightarrow> 'a RadixTreeNode list"
where
  "map_child k f [] = []"
| "map_child k f (c # cs) = (if name c = k then f c # cs else c # map_child k f cs)"

primrec modify_at ::
  "string list \<Rightarrow> ('a RadixTreeNode \<Rightarrow> 'a RadixTreeNode) \<Rightarrow> 'a RadixTreeNode \<Rightarrow> 'a RadixTreeNode"
where
  "modify_at [] f n = f n"
| "modify_at (k # ks) f n = RadixTreeNode (name n) (data n) (map_child k (modify_at ks f) (children n))"

definition set_data :: "('a \<Rightarrow> 'a) \<Rightarrow> 'a RadixTreeNode \<Rightarrow> 'a RadixTreeNode" where
  "set_data g n = RadixTreeNode (name n) (g (data n)) (children n)"

text \<open>
  Modelled from the spec: the "empty payload" of a node that \<open>entry\<close> creates and of the
  root. For \<open>CallerProfile\<close> that is the value-initialised struct: empty name, zero
  duration, and \<open>callCount = 0\<close> (its default member initialiser).
\<close>

definition CallerProfile_empty :: CallerProfile where
  "CallerProfile_empty = \<lparr>CallerProfile.callerName = [], totalTime = 0, callCount = 0\<rparr>"

text \<open>Modelled from the spec: the tree at construction, one root and the cursor on it.\<close>

definition RadixTree_init :: "CallerProfile RadixTree" where
  "RadixTree_init = \<lparr>m_root = RadixTreeNode [] CallerProfile_empty [], m_current_node = []\<rparr>"

text \<open>Modelled from the spec: \<open>current()\<close>, the node at the cursor.\<close>

definition get_current_node :: "'a RadixTree \<Rightarrow> 'a RadixTreeNode option" where
  "get_current_node t = node_at (m_root t) (m_current_node t)"

text \<open>
  Modelled from the spec: \<open>entry(name)\<close>. Under the current node, find a child with the
  name; if absent create it (empty payload, name set) after the existing children; move the
  cursor to that child.
\<close>

definition add_child :: "string \<Rightarrow> CallerProfile RadixTreeNode \<Rightarrow> CallerProfile RadixTreeNode" where
  "add_child k n =
     RadixTreeNode (name n) (data n) (children n @ [RadixTreeNode k CallerProfile_empty []])"

definition ensure_child :: "string \<Rightarrow> CallerProfile RadixTreeNode \<Rightarrow> CallerProfile RadixTreeNode" where
  "ensure_child k n = (case get_child k (children n) of None \<Rightarrow> add_child k n | Some c \<Rightarrow> n)"

definition entry :: "string \<Rightarrow> CallerProfile RadixTree \<Rightarrow> CallerProfile RadixTree" where
  "entry k t =
     \<lparr>m_root = modify_at (m_current_node t) (ensure_child k) (m_root t),
      m_current_node = m_current_node t @ [k]\<rparr>"

text \<open>
  Modelled from the spec: \<open>move_to_parent()\<close>. The cursor moves to the parent of the
  current node; at the root this is the unbalanced-call error.
\<close>

definition move_current_to_parent :: "'a RadixTree \<Rightarrow> error + 'a RadixTree" where
  "move_current_to_parent t =
     (if m_current_node t = [] then Inl Unbalanced_Call
      else Inr (t\<lparr>m_current_node := butlast (m_current_node t)\<rparr>))"

text \<open>Modelled from the spec: \<open>reset()\<close> discards every node but a fresh root.\<close>

definition RadixTree_reset :: "CallerProfile RadixTree \<Rightarrow> CallerProfile RadixTree" where
  "RadixTree_reset t = RadixTree_init"

section \<open>CallProfiler\<close>

text \<open>
  The profiler's two members. The stack is a list whose head is the top. The clock is
  the environment's: each operation that reads it takes the reading as an argument.
\<close>

record CallProfiler =
  m_callStack :: "CallerInfo list"
  m_radixTree :: "CallerProfile RadixTree"

definition CallProfiler_init :: CallProfiler where
  "CallProfiler_init = \<lparr>m_callStack = [], m_radixTree = RadixTree_init\<rparr>"

definition start_caller :: "string \<Rightarrow> time_point \<Rightarrow> CallProfiler \<Rightarrow> CallProfiler" where
  "start_caller caller now p =
     \<lparr>m_callStack = \<lparr>callerName = caller, startTime = now\<rparr> # m_callStack p,
      m_radixTree = entry caller (m_radixTree p)\<rparr>"

text \<open>The three assignments of \<open>end_caller\<close> to the payload of the current node.\<close>

definition update_profile :: "64 word \<Rightarrow> string \<Rightarrow> CallerProfile \<Rightarrow> CallerProfile" where
  "update_profile elapsedTime caller callProfile =
     callProfile\<lparr>totalTime := totalTime callProfile + elapsedTime,
                 callCount := callCount callProfile + 1,
                 CallerProfile.callerName := caller\<rparr>"

text \<open>
  \<open>end_caller\<close> reads \<open>m_callStack.top()\<close> first and has no test for an empty stack:
  that read is the first branch. Then the payload update, the pop, and the cursor's move.
\<close>

definition end_caller :: "time_point \<Rightarrow> CallProfiler \<Rightarrow> error + CallProfiler" where
  "end_caller endTime p =
     (case m_callStack p of
        [] \<Rightarrow> Inl Undefined_Behaviour
      | info # rest \<Rightarrow>
          (let elapsedTime = duration_cast_ms (endTime - startTime info);
               caller = CallerInfo.callerName info
           in case get_current_node (m_radixTree p) of
                None \<Rightarrow> Inl Undefined_Behaviour
              | Some node \<Rightarrow>
                  (let tree = (m_radixTree p)\<lparr>m_root :=
                         modify_at (m_current_node (m_radixTree p))
                           (set_data (update_profile elapsedTime caller))
                           (m_root (m_radixTree p))\<rparr>
                   in case move_current_to_parent tree of
                        Inl e \<Rightarrow> Inl e
                      | Inr tree' \<Rightarrow> Inr \<lparr>m_callStack = rest, m_radixTree = tree'\<rparr>)))"

text \<open>The loop of \<open>reset\<close> that pops until the stack is empty.\<close>

fun pop_all :: "CallerInfo list \<Rightarrow> CallerInfo list" where
  "pop_all [] = []"
| "pop_all (info # rest) = pop_all rest"

definition reset :: "CallProfiler \<Rightarrow> CallProfiler" where
  "reset p = \<lparr>m_callStack = pop_all (m_callStack p), m_radixTree = RadixTree_reset (m_radixTree p)\<rparr>"

subsection \<open>The report\<close>

text \<open>The loop \<open>for (int i = 0; i < depth; ++i) outstream << "  "\<close>.\<close>

function indent_loop :: "nat \<Rightarrow> nat \<Rightarrow> string \<Rightarrow> string" where
  "indent_loop i depth outstream =
     (if i < depth then indent_loop (i + 1) depth (outstream @ ''  '') else outstream)"
  by pat_completeness auto
termination
  by (relation "measure (\<lambda>(i, depth, outstream). depth - i)") auto

declare indent_loop.simps [simp del]

text \<open>
  \<open>_print_profiling_result\<close>: the indentation, the line of the node, then the children in
  order, each one level deeper. The depth is a natural number: it is bounded by the height
  of the tree, which the recursion itself cannot exceed.
\<close>

fun print_profiling_result_node :: "CallerProfile RadixTreeNode \<Rightarrow> nat \<Rightarrow> string \<Rightarrow> string" where
  "print_profiling_result_node (RadixTreeNode nm profile cs) depth outstream =
     fold (\<lambda>child out. print_profiling_result_node child (depth + 1) out) cs
       (if depth = 0 then indent_loop 0 depth outstream @ ''Profiling Result'' @ endl
        else indent_loop 0 depth outstream @ CallerProfile.callerName profile
               @ '' - Total Time: '' @ show_int (sint (totalTime profile))
               @ '' ms, Call Count: '' @ show_int (sint (callCount profile)) @ endl)"

text \<open>\<open>print_profiling_result\<close> starts at the tree's current node, with depth 0.\<close>

definition print_profiling_result :: "CallProfiler \<Rightarrow> string \<Rightarrow> error + string" where
  "print_profiling_result p outstream =
     (case get_current_node (m_radixTree p) of
        None \<Rightarrow> Inl Undefined_Behaviour
      | Some node \<Rightarrow> Inr (print_profiling_result_node node 0 outstream))"

subsection \<open>Sequences of calls\<close>

text \<open>A bracketing call: the profiler's two mutators with the clock readings they take.\<close>

datatype call = Start string time_point | End time_point

fun run :: "call list \<Rightarrow> CallProfiler \<Rightarrow> error + CallProfiler" where
  "run [] p = Inr p"
| "run (Start k t # cs) p = run cs (start_caller k t p)"
| "run (End t # cs) p = (case end_caller t p of Inl e \<Rightarrow> Inl e | Inr p' \<Rightarrow> run cs p')"

text \<open>
  A sequence is balanced from nesting depth \<open>d\<close> when no end comes without a pending start
  and the depth is back at 0 at the end.
\<close>

fun balanced_from :: "nat \<Rightarrow> call list \<Rightarrow> bool" where
  "balanced_from d [] = (d = 0)"
| "balanced_from d (Start k t # cs) = balanced_from (Suc d) cs"
| "balanced_from d (End t # cs) = (0 < d \<and> balanced_from (d - 1) cs)"

definition balanced :: "call list \<Rightarrow> bool" where
  "balanced cs = balanced_from 0 cs"

section \<open>BufferExpander\<close>

text \<open>
  The three pointers of the buffer are addresses into a byte memory; \<open>size_t\<close> is a 64-bit
  word and \<open>int8_t\<close> an 8-bit one. \<open>size()\<close> converts the pointer difference to \<open>size_t\<close>.
\<close>

record BufferExpander =
  memory :: "nat \<Rightarrow> 8 word"
  m_begin :: nat
  m_end :: nat
  m_end_cap :: nat

definition size_buffer :: "BufferExpander \<Rightarrow> 64 word" where
  "size_buffer b = word_of_int (int (m_end b) - int (m_begin b))"

definition data_at :: "BufferExpander \<Rightarrow> 64 word \<Rightarrow> 8 word" where
  "data_at b it = memory b (m_begin b + unat it)"

definition validate_range :: "BufferExpander \<Rightarrow> 64 word \<Rightarrow> error + unit" where
  "validate_range b it =
     (if it \<ge> size_buffer b
      then Inl (Out_Of_Range (''BufferExpander: index '' @ show_nat (unat it)
                  @ '' is out of bounds with size '' @ show_nat (unat (size_buffer b))))
      else Inr ())"

definition at :: "BufferExpander \<Rightarrow> 64 word \<Rightarrow> error + 8 word" where
  "at b it = (case validate_range b it of Inl e \<Rightarrow> Inl e | Inr u \<Rightarrow> Inr (data_at b it))"

section \<open>Observations and specifications\<close>

text \<open>
  What the claims speak of: the payload stored at a path, the profiler's cursor, the
  lock-step of stack and cursor, nesting of call sequences, and the report as the spec
  words it (a pre-order list of nodes with their depths, one line each).
\<close>

text \<open>The payload at a path below a node, when the path leads to a node.\<close>

definition profile_of :: "'a RadixTreeNode \<Rightarrow> string list \<Rightarrow> 'a option" where
  "profile_of n r = map_option data (node_at n r)"

definition cursor :: "CallProfiler \<Rightarrow> string list" where
  "cursor p = m_current_node (m_radixTree p)"

definition profile_at :: "CallProfiler \<Rightarrow> string list \<Rightarrow> CallerProfile option" where
  "profile_at p r = profile_of (m_root (m_radixTree p)) r"

text \<open>
  Stack and cursor in lock-step: the cursor designates a node, and the names on the stack,
  bottom first, are the names on the path to it (so the two have the same depth). The
  fresh profiler is in lock-step and the two mutators keep it so.
\<close>

definition lock_step :: "CallProfiler \<Rightarrow> bool" where
  "lock_step p =
     (get_current_node (m_radixTree p) \<noteq> None
      \<and> map CallerInfo.callerName (m_callStack p) = rev (m_current_node (m_radixTree p)))"

text \<open>
  The report in the spec's words: the nodes in depth-first pre-order, each with its depth;
  one line per node, two spaces per level, the header at depth 0 and the three fields of
  the payload below.
\<close>

fun preorder :: "nat \<Rightarrow> 'a RadixTreeNode \<Rightarrow> (nat \<times> 'a RadixTreeNode) list" where
  "preorder d (RadixTreeNode nm x cs) =
     (d, RadixTreeNode nm x cs) # concat (map (preorder (Suc d)) cs)"

definition report_line :: "nat \<times> CallerProfile RadixTreeNode \<Rightarrow> string" where
  "report_line dn =
     replicate (2 * fst dn) CHR '' ''
     @ (if fst dn = 0 then ''Profiling Result''
        else CallerProfile.callerName (data (snd dn))
             @ '' - Total Time: '' @ show_int (sint (totalTime (data (snd dn))))
             @ '' ms, Call Count: '' @ show_int (sint (callCount (data (snd dn)))))
     @ endl"

definition report :: "CallerProfile RadixTreeNode \<Rightarrow> string" where
  "report n = concat (map report_line (preorder 0 n))"

text \<open>
  The profiler that a successful \<open>end_caller\<close> returns: the payload at the cursor
  updated, the stack popped, the cursor on the parent.
\<close>

definition ended :: "time_point \<Rightarrow> CallProfiler \<Rightarrow> CallProfiler" where
  "ended t p =
     \<lparr>m_callStack = tl (m_callStack p),
      m_radixTree =
        \<lparr>m_root = modify_at (cursor p)
                    (set_data (update_profile (duration_cast_ms (t - startTime (hd (m_callStack p))))
                                 (CallerInfo.callerName (hd (m_callStack p)))))
                    (m_root (m_radixTree p)),
         m_current_node = butlast (cursor p)\<rparr>\<rparr>"

text \<open>
  A call sequence never ends a call that is not pending (it need not end them all).
\<close>

fun nested_from :: "nat \<Rightarrow> call list \<Rightarrow> bool" where
  "nested_from d [] = True"
| "nested_from d (Start k t # cs) = nested_from (Suc d) cs"
| "nested_from d (End t # cs) = (0 < d \<and> nested_from (d - 1) cs)"

text \<open>
  What a call sequence completes, read off the sequence alone: the path of every
  \<open>End\<close> with the milliseconds it measures (the cursor and the start times of the
  pending calls are followed along), and the paths only.
\<close>

fun completions :: "string list \<Rightarrow> time_point list \<Rightarrow> call list \<Rightarrow> (string list \<times> 64 word) list" where
  "completions cur st [] = []"
| "completions cur st (Start k t # cs) = completions (cur @ [k]) (t # st) cs"
| "completions cur st (End t # cs) =
     (cur, duration_cast_ms (t - hd st)) # completions (butlast cur) (tl st) cs"

definition completions_at :: "CallProfiler \<Rightarrow> call list \<Rightarrow> string list \<Rightarrow> 64 word list" where
  "completions_at p cs r =
     map snd (filter (\<lambda>c. fst c = r)
       (completions (cursor p) (map startTime (m_callStack p)) cs))"


text \<open>
  The invocation count and the cumulative time at a path; a path with no node counts 0.
\<close>

definition calls_at :: "CallProfiler \<Rightarrow> string list \<Rightarrow> 32 word" where
  "calls_at p r = (case profile_at p r of None \<Rightarrow> 0 | Some pr \<Rightarrow> callCount pr)"

definition time_at :: "CallProfiler \<Rightarrow> string list \<Rightarrow> 64 word" where
  "time_at p r = (case profile_at p r of None \<Rightarrow> 0 | Some pr \<Rightarrow> totalTime pr)"

definition invocation_count :: "error + CallProfiler \<Rightarrow> string list \<Rightarrow> int option" where
  "invocation_count res r =
     (case res of Inl e \<Rightarrow> None
      | Inr p \<Rightarrow> (case profile_at p r of None \<Rightarrow> None | Some pr \<Rightarrow> Some (sint (callCount pr))))"


text \<open>
  The names of the children of the node at a path, in creation order.
\<close>

definition child_names :: "CallProfiler \<Rightarrow> string list \<Rightarrow> string list" where
  "child_names p r =
     (case node_at (m_root (m_radixTree p)) r of None \<Rightarrow> [] | Some m \<Rightarrow> map name (children m))"


text \<open>
  \<open>N\<close> brackets of one name, one after the other, each with its two clock readings.
\<close>

fun repeat_pairs :: "string \<Rightarrow> (time_point \<times> time_point) list \<Rightarrow> call list" where
  "repeat_pairs k [] = []"
| "repeat_pairs k (tt # ts) = Start k (fst tt) # End (snd tt) # repeat_pairs k ts"

text \<open>A mutation of a node that leaves its name alone (all the tree's mutations do).\<close>

definition keeps_name :: "('a RadixTreeNode \<Rightarrow> 'a RadixTreeNode) \<Rightarrow> bool" where
  "keeps_name f = (\<forall>c. name (f c) = name c)"

text \<open>A finished tree used to exercise the report.\<close>

definition demo_tree :: "CallerProfile RadixTreeNode" where
  "demo_tree = RadixTreeNode [] CallerProfile_empty
     [RadixTreeNode ''outer'' \<lparr>CallerProfile.callerName = ''outer'', totalTime = 12, callCount = 1\<rparr>
        [RadixTreeNode ''inner'' \<lparr>CallerProfile.callerName = ''inner'', totalTime = 5, callCount = 2\<rparr> []]]"

section \<open>The tree: lookup after mutation\<close>

lemma keeps_name_set_data [simp]: "keeps_name (set_data g)"
  by (simp add: keeps_name_def set_data_def)

lemma keeps_name_ensure_child [simp]: "keeps_name (ensure_child k)"
  by (simp add: keeps_name_def ensure_child_def add_child_def split: option.splits)

lemma name_modify_at: "keeps_name f \<Longrightarrow> name (modify_at p f n) = name n"
  by (cases p) (simp_all add: keeps_name_def)

lemma keeps_name_modify_at [simp]: "keeps_name f \<Longrightarrow> keeps_name (modify_at p f)"
  by (simp add: keeps_name_def name_modify_at)

lemma get_child_map_child_same:
  "keeps_name f \<Longrightarrow> get_child k (map_child k f cs) = map_option f (get_child k cs)"
  by (induction cs) (simp_all add: keeps_name_def)

lemma get_child_map_child_other:
  "keeps_name f \<Longrightarrow> k' \<noteq> k \<Longrightarrow> get_child k' (map_child k f cs) = get_child k' cs"
  by (induction cs) (simp_all add: keeps_name_def)

lemma map_name_map_child: "keeps_name f \<Longrightarrow> map name (map_child k f cs) = map name cs"
  by (induction cs) (simp_all add: keeps_name_def)

lemma get_child_None_iff: "get_child k cs = None \<longleftrightarrow> k \<notin> set (map name cs)"
  by (induction cs) auto

lemma get_child_name: "get_child k cs = Some c \<Longrightarrow> name c = k"
  by (induction cs) (auto split: if_splits)

lemma get_child_append:
  "get_child k (cs @ ds) = (case get_child k cs of None \<Rightarrow> get_child k ds | Some c \<Rightarrow> Some c)"
  by (induction cs) simp_all

lemma node_at_append:
  "node_at n (xs @ ys) = (case node_at n xs of None \<Rightarrow> None | Some m \<Rightarrow> node_at m ys)"
  by (induction xs arbitrary: n) (simp_all split: option.splits)

lemma node_at_modify_at_prefix:
  "keeps_name f \<Longrightarrow> node_at (modify_at (r @ q) f n) r = map_option (modify_at q f) (node_at n r)"
proof (induction r arbitrary: n)
  case Nil
  then show ?case by simp
next
  case (Cons k r)
  then show ?case
    by (cases "get_child k (children n)") (simp_all add: get_child_map_child_same)
qed

lemma node_at_modify_at_same:
  "keeps_name f \<Longrightarrow> node_at (modify_at p f n) p = map_option f (node_at n p)"
proof -
  have "modify_at [] f = f" by (rule ext) simp
  then show ?thesis if "keeps_name f"
    using node_at_modify_at_prefix [OF that, of p "[]" n] by simp
qed

lemma profile_of_Nil: "profile_of n [] = Some (data n)"
  by (simp add: profile_of_def)

lemma profile_of_Cons:
  "profile_of n (k # ks) = (case get_child k (children n) of None \<Rightarrow> None | Some c \<Rightarrow> profile_of c ks)"
  by (simp add: profile_of_def split: option.splits)

lemma profile_of_None_iff: "profile_of n r = None \<longleftrightarrow> node_at n r = None"
  by (simp add: profile_of_def)

lemma profile_of_set_data:
  "profile_of (modify_at p (set_data g) n) r =
     (if r = p then map_option g (profile_of n r) else profile_of n r)"
proof (induction r arbitrary: p n)
  case Nil
  then show ?case by (cases p) (simp_all add: profile_of_Nil set_data_def)
next
  case (Cons k' rs)
  show ?case
  proof (cases p)
    case Nil
    then show ?thesis by (simp add: profile_of_Cons set_data_def)
  next
    case (Cons k ks)
    show ?thesis
    proof (cases "k' = k")
      case True
      show ?thesis
      proof (cases "get_child k (children n)")
        case None
        then show ?thesis using Cons True
          by (simp add: profile_of_Cons get_child_map_child_same)
      next
        case (Some c)
        have "profile_of (modify_at ks (set_data g) c) rs =
               (if rs = ks then map_option g (profile_of c rs) else profile_of c rs)"
          by (rule Cons.IH)
        then show ?thesis using Cons True Some
          by (simp add: profile_of_Cons get_child_map_child_same)
      qed
    next
      case False
      then show ?thesis using Cons
        by (simp add: profile_of_Cons get_child_map_child_other)
    qed
  qed
qed

lemma node_at_leaf: "node_at (RadixTreeNode k d []) rs = (if rs = [] then Some (RadixTreeNode k d []) else None)"
  by (cases rs) simp_all

lemma profile_of_ensure_child:
  "profile_of (modify_at p (ensure_child k) n) r =
     (if r = p @ [k] \<and> node_at n p \<noteq> None \<and> profile_of n r = None
      then Some CallerProfile_empty else profile_of n r)"
proof (induction r arbitrary: p n)
  case Nil
  then show ?case
    by (cases p) (simp_all add: profile_of_Nil ensure_child_def add_child_def split: option.splits)
next
  case (Cons k' rs)
  show ?case
  proof (cases p)
    case Nil
    show ?thesis
    proof (cases "get_child k (children n)")
      case None
      then show ?thesis using Nil
        by (cases "get_child k' (children n)")
           (auto simp: profile_of_Cons profile_of_def ensure_child_def add_child_def get_child_append node_at_leaf)
    next
      case (Some c)
      then show ?thesis using Nil
        by (auto simp: profile_of_Cons profile_of_def ensure_child_def)
    qed
  next
    case (Cons k0 ks)
    show ?thesis
    proof (cases "k' = k0")
      case True
      show ?thesis
      proof (cases "get_child k0 (children n)")
        case None
        then show ?thesis using Cons True
          by (simp add: profile_of_Cons get_child_map_child_same)
      next
        case (Some c)
        have "profile_of (modify_at ks (ensure_child k) c) rs =
               (if rs = ks @ [k] \<and> node_at c ks \<noteq> None \<and> profile_of c rs = None
                then Some CallerProfile_empty else profile_of c rs)"
          by (rule Cons.IH)
        then show ?thesis using Cons True Some
          by (auto simp: profile_of_Cons get_child_map_child_same)
      qed
    next
      case False
      then show ?thesis using Cons
        by (simp add: profile_of_Cons get_child_map_child_other)
    qed
  qed
qed

section \<open>The report\<close>

lemma indent_loop_eq: "indent_loop i depth out = out @ replicate (2 * (depth - i)) CHR '' ''"
proof (induction i depth out rule: indent_loop.induct)
  case (1 i depth out)
  show ?case
  proof (cases "i < depth")
    case True
    then have "depth - i = Suc (depth - (i + 1))" by simp
    with True 1 show ?thesis
      by (subst indent_loop.simps) (simp add: replicate_append_same)
  next
    case False
    then show ?thesis by (subst indent_loop.simps) simp
  qed
qed

lemma fold_appends:
  "(\<And>c out. c \<in> set cs \<Longrightarrow> h c out = out @ g c) \<Longrightarrow> fold h cs out = out @ concat (map g cs)"
  by (induction cs arbitrary: out) simp_all

lemma concat_map_concat:
  "concat (map f (concat xss)) = concat (map (\<lambda>xs. concat (map f xs)) xss)"
  by (induction xss) simp_all

lemma node_line:
  "(if depth = 0 then indent_loop 0 depth out @ ''Profiling Result'' @ endl
    else indent_loop 0 depth out @ CallerProfile.callerName profile
           @ '' - Total Time: '' @ show_int (sint (totalTime profile))
           @ '' ms, Call Count: '' @ show_int (sint (callCount profile)) @ endl)
   = out @ report_line (depth, RadixTreeNode nm profile cs)"
  by (simp add: indent_loop_eq report_line_def)

lemma print_node_eq:
  "print_profiling_result_node n d out = out @ concat (map report_line (preorder d n))"
proof (induction n d out rule: print_profiling_result_node.induct)
  case (1 nm profile cs depth outstream)
  have step: "\<And>c out. c \<in> set cs \<Longrightarrow>
      print_profiling_result_node c (depth + 1) out = out @ concat (map report_line (preorder (Suc depth) c))"
    using 1 by simp
  have children: "fold (\<lambda>child out. print_profiling_result_node child (depth + 1) out) cs out0
        = out0 @ concat (map (\<lambda>c. concat (map report_line (preorder (Suc depth) c))) cs)" for out0
    by (rule fold_appends) (rule step)
  have "print_profiling_result_node (RadixTreeNode nm profile cs) depth outstream
        = (outstream @ report_line (depth, RadixTreeNode nm profile cs))
          @ concat (map (\<lambda>c. concat (map report_line (preorder (Suc depth) c))) cs)"
    by (simp only: print_profiling_result_node.simps
          node_line [where nm = nm and cs = cs] children)
  also have "\<dots> = outstream @ concat (map report_line (preorder depth (RadixTreeNode nm profile cs)))"
    by (simp add: concat_map_concat comp_def)
  finally show ?case .
qed

lemma preorder_hd: "preorder d n = (d, n) # tl (preorder d n)"
  by (cases n) simp

lemma preorder_depths: "(d', m) \<in> set (preorder d n) \<Longrightarrow> d \<le> d'"
proof (induction d n arbitrary: d' m rule: preorder.induct)
  case (1 d nm x cs)
  then show ?case by (fastforce)
qed

lemma preorder_tl_depths: "(d', m) \<in> set (tl (preorder d n)) \<Longrightarrow> d < d'"
proof (cases n)
  case (RadixTreeNode nm x cs)
  assume "(d', m) \<in> set (tl (preorder d n))"
  then obtain c where "c \<in> set cs" "(d', m) \<in> set (preorder (Suc d) c)"
    using RadixTreeNode by auto
  then show ?thesis using preorder_depths by fastforce
qed

section \<open>Reset\<close>

lemma pop_all_empty: "pop_all st = []"
  by (induction st) simp_all

text \<open>
  C8. For every profiler state, \<open>reset\<close> twice is \<open>reset\<close> once: after either call
  the profiler is the freshly constructed one, its tree a bare root with the cursor on it
  and its stack empty.
\<close>

theorem reset_idempotent:
  "reset (reset p) = reset p
   \<and> reset p = CallProfiler_init
   \<and> m_callStack (reset p) = []
   \<and> m_radixTree (reset p) =
       \<lparr>m_root = RadixTreeNode [] CallerProfile_empty [], m_current_node = []\<rparr>"
  by (simp add: reset_def pop_all_empty RadixTree_reset_def CallProfiler_init_def RadixTree_init_def)

section \<open>end\_caller without a pending start\<close>

text \<open>
  C1. The claim is that \<open>end_caller\<close> on an empty stack fails with the unbalanced-call
  condition and leaves the state alone. The code has no such test: whenever the stack is
  empty (a fresh profiler, one just reset) its first statement reads \<open>top()\<close> of the
  empty stack, which is undefined behaviour and no reported failure.
\<close>

theorem end_caller_empty_stack:
  "m_callStack p = [] \<Longrightarrow> end_caller now p = Inl Undefined_Behaviour"
  by (simp add: end_caller_def)

theorem end_caller_empty_stack_witness:
  "m_callStack CallProfiler_init = [] \<and> end_caller 0 CallProfiler_init = Inl Undefined_Behaviour
   \<and> end_caller 0 (reset CallProfiler_init) = Inl Undefined_Behaviour"
  using end_caller_empty_stack [of CallProfiler_init 0] end_caller_empty_stack [of "reset CallProfiler_init" 0]
  by (simp add: CallProfiler_init_def reset_def)

section \<open>Checked access to the buffer\<close>

text \<open>
  C9. \<open>at(it)\<close> fails with \<open>std::out_of_range\<close> exactly when the index is greater than
  or equal to the size; below the size it returns the byte of the memory at the address
  \<open>m_begin + it\<close>.
\<close>

theorem at_checked:
  "isl (at b it) = (size_buffer b \<le> it)
   \<and> (size_buffer b \<le> it \<longrightarrow>
        at b it = Inl (Out_Of_Range (''BufferExpander: index '' @ show_nat (unat it)
                  @ '' is out of bounds with size '' @ show_nat (unat (size_buffer b)))))
   \<and> (it < size_buffer b \<longrightarrow> at b it = Inr (memory b (m_begin b + unat it)))"
  by (auto simp: at_def validate_range_def data_at_def)

theorem at_checked_witness:
  "isl (at \<lparr>memory = (\<lambda>a. if a = 101 then 7 else if a = 102 then 9 else 0),
             m_begin = 100, m_end = 103, m_end_cap = 108\<rparr> 3)
   \<and> at \<lparr>memory = (\<lambda>a. if a = 101 then 7 else if a = 102 then 9 else 0),
          m_begin = 100, m_end = 103, m_end_cap = 108\<rparr> 1 = Inr 7
   \<and> at \<lparr>memory = (\<lambda>a. if a = 101 then 7 else if a = 102 then 9 else 0),
          m_begin = 100, m_end = 103, m_end_cap = 108\<rparr> 2 = Inr 9
   \<and> at \<lparr>memory = (\<lambda>a. if a = 101 then 7 else if a = 102 then 9 else 0),
          m_begin = 100, m_end = 103, m_end_cap = 108\<rparr> 0 = Inr 0"
  using
    at_checked [of "\<lparr>memory = (\<lambda>a. if a = 101 then 7 else if a = 102 then 9 else 0),
                    m_begin = 100, m_end = 103, m_end_cap = 108\<rparr>" 3]
    at_checked [of "\<lparr>memory = (\<lambda>a. if a = 101 then 7 else if a = 102 then 9 else 0),
                    m_begin = 100, m_end = 103, m_end_cap = 108\<rparr>" 1]
    at_checked [of "\<lparr>memory = (\<lambda>a. if a = 101 then 7 else if a = 102 then 9 else 0),
                    m_begin = 100, m_end = 103, m_end_cap = 108\<rparr>" 2]
    at_checked [of "\<lparr>memory = (\<lambda>a. if a = 101 then 7 else if a = 102 then 9 else 0),
                    m_begin = 100, m_end = 103, m_end_cap = 108\<rparr>" 0]
  by (simp add: size_buffer_def)

section \<open>The printed report\<close>

lemma print_profiling_result_eq:
  "get_current_node (m_radixTree p) = Some n \<Longrightarrow>
     print_profiling_result p out = Inr (out @ concat (map report_line (preorder 0 n)))"
  by (simp add: print_profiling_result_def print_node_eq)

lemma node_at_childless:
  "children n = [] \<Longrightarrow> node_at n r = Some m \<Longrightarrow> r = [] \<and> m = n"
  by (cases r) simp_all

text \<open>
  C10. On a profiler whose tree is only the root (freshly constructed, just reset, or any
  state with a childless root), \<open>print_profiling_result\<close> writes exactly the header line
  \<open>Profiling Result\<close>, unindented, and nothing else.
\<close>

theorem print_root_only:
  "print_profiling_result CallProfiler_init out = Inr (out @ ''Profiling Result'' @ endl)
   \<and> print_profiling_result (reset p) out = Inr (out @ ''Profiling Result'' @ endl)
   \<and> (children (m_root (m_radixTree q)) = [] \<and> get_current_node (m_radixTree q) \<noteq> None
        \<longrightarrow> print_profiling_result q out = Inr (out @ ''Profiling Result'' @ endl))"
proof -
  have general: "print_profiling_result q out = Inr (out @ ''Profiling Result'' @ endl)"
    if "children (m_root (m_radixTree q)) = []" "get_current_node (m_radixTree q) \<noteq> None" for q
  proof -
    from that(2) obtain m where m: "get_current_node (m_radixTree q) = Some m" by blast
    then have "m = m_root (m_radixTree q)"
      using node_at_childless [OF that(1)] by (simp add: get_current_node_def)
    moreover have "preorder 0 m = [(0, m)]" if "children m = []" for m :: "CallerProfile RadixTreeNode"
      using that by (cases m) simp
    ultimately show ?thesis
      using print_profiling_result_eq [OF m, of out] that(1) by (simp add: report_line_def)
  qed
  have "print_profiling_result CallProfiler_init out = Inr (out @ ''Profiling Result'' @ endl)"
    by (rule general) (simp_all add: CallProfiler_init_def RadixTree_init_def get_current_node_def)
  moreover have "print_profiling_result (reset p) out = Inr (out @ ''Profiling Result'' @ endl)"
    by (rule general)
       (simp_all add: reset_def RadixTree_reset_def RadixTree_init_def get_current_node_def)
  ultimately show ?thesis using general by blast
qed

theorem print_root_only_witness:
  "children (m_root (m_radixTree CallProfiler_init)) = []
   \<and> get_current_node (m_radixTree CallProfiler_init) \<noteq> None
   \<and> print_profiling_result CallProfiler_init [] = Inr (''Profiling Result'' @ [CHR 0x0A])"
  using print_root_only [of "[]" CallProfiler_init CallProfiler_init]
  by (simp add: CallProfiler_init_def RadixTree_init_def get_current_node_def endl_def)

text \<open>
  C2, as amended. \<open>print_profiling_result\<close> walks depth-first in pre-order from the node
  at the cursor: the first line is the fixed header for that node, and every other node of
  its subtree gets exactly one line, at depth at least 1, indented by two spaces per level,
  with the stored caller name, the cumulative milliseconds and the invocation count. When
  the cursor is at the root the walk starts at the root.
\<close>

theorem print_profiling_result_from_cursor:
  "get_current_node (m_radixTree p) = Some n \<Longrightarrow>
     print_profiling_result p out = Inr (out @ concat (map report_line (preorder 0 n)))
     \<and> preorder 0 n = (0, n) # tl (preorder 0 n)
     \<and> report_line (0, n) = ''Profiling Result'' @ endl
     \<and> (\<forall>(d, m) \<in> set (tl (preorder 0 n)).
          1 \<le> d \<and>
          report_line (d, m) =
            replicate (2 * d) CHR '' '' @ CallerProfile.callerName (data m)
            @ '' - Total Time: '' @ show_int (sint (totalTime (data m)))
            @ '' ms, Call Count: '' @ show_int (sint (callCount (data m))) @ endl)
     \<and> (m_current_node (m_radixTree p) = [] \<longrightarrow> n = m_root (m_radixTree p))"
proof (intro conjI)
  assume n: "get_current_node (m_radixTree p) = Some n"
  show "print_profiling_result p out = Inr (out @ concat (map report_line (preorder 0 n)))"
    by (rule print_profiling_result_eq [OF n])
  show "preorder 0 n = (0, n) # tl (preorder 0 n)" by (rule preorder_hd)
  show "report_line (0, n) = ''Profiling Result'' @ endl" by (simp add: report_line_def)
  show "\<forall>(d, m) \<in> set (tl (preorder 0 n)).
          1 \<le> d \<and>
          report_line (d, m) =
            replicate (2 * d) CHR '' '' @ CallerProfile.callerName (data m)
            @ '' - Total Time: '' @ show_int (sint (totalTime (data m)))
            @ '' ms, Call Count: '' @ show_int (sint (callCount (data m))) @ endl"
    using preorder_tl_depths [of _ _ 0 n] by (fastforce simp: report_line_def)
  show "m_current_node (m_radixTree p) = [] \<longrightarrow> n = m_root (m_radixTree p)"
    using n by (auto simp: get_current_node_def)
qed

theorem print_profiling_result_from_cursor_witness:
  "get_current_node (m_radixTree \<lparr>m_callStack = [], m_radixTree = \<lparr>m_root = demo_tree, m_current_node = []\<rparr>\<rparr>)
     = Some demo_tree
   \<and> print_profiling_result
        \<lparr>m_callStack = [], m_radixTree = \<lparr>m_root = demo_tree, m_current_node = []\<rparr>\<rparr> []
      = Inr (''Profiling Result'' @ endl
             @ ''  outer - Total Time: 12 ms, Call Count: 1'' @ endl
             @ ''    inner - Total Time: 5 ms, Call Count: 2'' @ endl)"
  using print_profiling_result_from_cursor
    [of "\<lparr>m_callStack = [], m_radixTree = \<lparr>m_root = demo_tree, m_current_node = []\<rparr>\<rparr>" demo_tree "[]"]
  apply (simp add: get_current_node_def)
  apply (simp add: demo_tree_def report_line_def show_int_def)
  apply code_simp
  done

text \<open>
  C2 as stated, from the root in every state, fails while a call is in progress: after
  \<open>start_caller A\<close> the tree has the root and a node at depth 1, and only the header is
  written.
\<close>

theorem print_from_root_counterexample:
  "print_profiling_result (start_caller ''A'' 0 CallProfiler_init) [] = Inr (''Profiling Result'' @ endl)
   \<and> map fst (preorder 0 (m_root (m_radixTree (start_caller ''A'' 0 CallProfiler_init)))) = [0, 1]
   \<and> print_profiling_result (start_caller ''A'' 0 CallProfiler_init) []
       \<noteq> Inr (report (m_root (m_radixTree (start_caller ''A'' 0 CallProfiler_init))))"
  by (simp add: print_profiling_result_def start_caller_def CallProfiler_init_def RadixTree_init_def
      entry_def get_current_node_def ensure_child_def add_child_def indent_loop_eq report_def
      report_line_def)

section \<open>The two mutators on a profiler in lock-step\<close>

lemma cursor_start_caller: "cursor (start_caller k t p) = cursor p @ [k]"
  by (simp add: cursor_def start_caller_def entry_def)

lemma stack_start_caller:
  "m_callStack (start_caller k t p) = \<lparr>callerName = k, startTime = t\<rparr> # m_callStack p"
  by (simp add: start_caller_def)

lemma profile_at_start_caller:
  "profile_at (start_caller k t p) r =
     (if r = cursor p @ [k] \<and> get_current_node (m_radixTree p) \<noteq> None \<and> profile_at p r = None
      then Some CallerProfile_empty else profile_at p r)"
  by (auto simp: profile_at_def start_caller_def entry_def cursor_def get_current_node_def
      profile_of_ensure_child)

lemma lock_step_start_caller: "lock_step p \<Longrightarrow> lock_step (start_caller k t p)"
proof -
  assume l: "lock_step p"
  have "profile_at (start_caller k t p) (cursor p @ [k]) \<noteq> None"
    using l by (simp add: profile_at_start_caller lock_step_def)
  then have "get_current_node (m_radixTree (start_caller k t p)) \<noteq> None"
    using cursor_start_caller [of k t p]
    by (simp add: profile_at_def profile_of_None_iff get_current_node_def cursor_def)
  then show ?thesis
    using l by (simp add: lock_step_def start_caller_def entry_def)
qed

lemma lock_step_cursor_Nil: "lock_step p \<Longrightarrow> (cursor p = []) = (m_callStack p = [])"
  by (auto simp: lock_step_def cursor_def)

lemma lock_step_length: "lock_step p \<Longrightarrow> length (m_callStack p) = length (cursor p)"
proof -
  assume "lock_step p"
  then have "length (map CallerInfo.callerName (m_callStack p)) = length (rev (cursor p))"
    by (simp add: lock_step_def cursor_def)
  then show ?thesis by simp
qed

lemma lock_step_current: "lock_step p \<Longrightarrow> \<exists>pr. profile_at p (cursor p) = Some pr"
  by (auto simp: lock_step_def profile_at_def profile_of_def get_current_node_def cursor_def)

lemma end_caller_ended:
  assumes "lock_step p" "m_callStack p \<noteq> []"
  shows "end_caller t p = Inr (ended t p)"
proof -
  obtain info rest where st: "m_callStack p = info # rest"
    using assms(2) by (cases "m_callStack p") auto
  have cur: "m_current_node (m_radixTree p) \<noteq> []"
    using lock_step_cursor_Nil [OF assms(1)] assms(2) by (simp add: cursor_def)
  obtain n where n: "get_current_node (m_radixTree p) = Some n"
    using assms(1) by (auto simp: lock_step_def)
  show ?thesis
    using st cur n
    by (simp add: end_caller_def ended_def move_current_to_parent_def cursor_def Let_def)
qed

lemma profile_at_ended:
  "profile_at (ended t p) r =
     (if r = cursor p
      then map_option (update_profile (duration_cast_ms (t - startTime (hd (m_callStack p))))
                         (CallerInfo.callerName (hd (m_callStack p)))) (profile_at p r)
      else profile_at p r)"
  by (simp add: profile_at_def ended_def profile_of_set_data)

lemma cursor_ended: "cursor (ended t p) = butlast (cursor p)"
  by (simp add: cursor_def ended_def)

lemma stack_ended: "m_callStack (ended t p) = tl (m_callStack p)"
  by (simp add: ended_def)

lemma node_at_butlast: "node_at n r \<noteq> None \<Longrightarrow> node_at n (butlast r) \<noteq> None"
proof (cases "r = []")
  case False
  assume a: "node_at n r \<noteq> None"
  have "node_at n (butlast r @ [last r]) \<noteq> None" using a False by simp
  then show ?thesis unfolding node_at_append by (auto split: option.splits)
qed simp

lemma lock_step_ended:
  assumes "lock_step p" "m_callStack p \<noteq> []"
  shows "lock_step (ended t p)"
proof -
  have "profile_at p (cursor p) \<noteq> None"
    using assms(1) by (simp add: lock_step_def profile_at_def profile_of_None_iff get_current_node_def cursor_def)
  then have "node_at (m_root (m_radixTree p)) (butlast (cursor p)) \<noteq> None"
    by (simp add: profile_at_def profile_of_None_iff node_at_butlast)
  then have "profile_at p (butlast (cursor p)) \<noteq> None"
    by (simp add: profile_at_def profile_of_None_iff)
  then have "profile_at (ended t p) (butlast (cursor p)) \<noteq> None"
    by (auto simp: profile_at_ended)
  then have valid: "get_current_node (m_radixTree (ended t p)) \<noteq> None"
    using cursor_ended [of t p]
    by (simp add: profile_at_def profile_of_None_iff get_current_node_def cursor_def)
  have "rev (butlast (cursor p)) = tl (rev (cursor p))"
    by (cases "cursor p" rule: rev_cases) simp_all
  then have "map CallerInfo.callerName (tl (m_callStack p)) = rev (butlast (cursor p))"
    using assms(1) by (simp add: lock_step_def cursor_def map_tl)
  then show ?thesis
    using valid by (simp add: lock_step_def ended_def cursor_def)
qed

lemma lock_step_init: "lock_step CallProfiler_init"
  by (simp add: lock_step_def CallProfiler_init_def RadixTree_init_def get_current_node_def)

lemma cursor_init: "cursor CallProfiler_init = []"
  by (simp add: cursor_def CallProfiler_init_def RadixTree_init_def)

lemma child_names_init: "child_names CallProfiler_init [] = []"
  by (simp add: child_names_def CallProfiler_init_def RadixTree_init_def)

lemmas eval_defs = CallProfiler_init_def RadixTree_init_def start_caller_def end_caller_def entry_def
  get_current_node_def ensure_child_def add_child_def set_data_def update_profile_def
  move_current_to_parent_def duration_cast_ms_def ticks_per_ms_def signed_divide_int_def
  CallerProfile_empty_def profile_at_def profile_of_def cursor_def lock_step_def

section \<open>Call sequences\<close>

lemma run_nested:
  "lock_step p \<Longrightarrow> nested_from d cs \<Longrightarrow> d \<le> length (m_callStack p) \<Longrightarrow>
     \<exists>p'. run cs p = Inr p' \<and> lock_step p'"
proof (induction cs arbitrary: d p)
  case Nil
  then show ?case by simp
next
  case (Cons c cs)
  show ?case
  proof (cases c)
    case (Start k t)
    have "nested_from (Suc d) cs" using Cons.prems(2) Start by simp
    moreover have "Suc d \<le> length (m_callStack (start_caller k t p))"
      using Cons.prems(3) by (simp add: stack_start_caller)
    ultimately show ?thesis
      using Cons.IH [OF lock_step_start_caller [OF Cons.prems(1)]] Start by simp
  next
    case (End t)
    have d: "0 < d" "nested_from (d - 1) cs" using Cons.prems(2) End by simp_all
    then have ne: "m_callStack p \<noteq> []" using Cons.prems(3) by auto
    have "d - 1 \<le> length (m_callStack (ended t p))"
      using Cons.prems(3) by (simp add: stack_ended)
    then show ?thesis
      using Cons.IH [OF lock_step_ended [OF Cons.prems(1) ne] d(2)] End
        end_caller_ended [OF Cons.prems(1) ne]
      by simp
  qed
qed

lemma run_balanced_from:
  "lock_step p \<Longrightarrow> balanced_from d cs \<Longrightarrow> d \<le> length (m_callStack p) \<Longrightarrow>
     \<exists>p'. run cs p = Inr p' \<and> lock_step p'
          \<and> m_callStack p' = drop d (m_callStack p)
          \<and> cursor p' = take (length (cursor p) - d) (cursor p)"
proof (induction cs arbitrary: d p)
  case Nil
  then show ?case by simp
next
  case (Cons c cs)
  show ?case
  proof (cases c)
    case (Start k t)
    let ?q = "start_caller k t p"
    have b: "balanced_from (Suc d) cs" using Cons.prems(2) Start by simp
    have len: "Suc d \<le> length (m_callStack ?q)"
      using Cons.prems(3) by (simp add: stack_start_caller)
    have dl: "d \<le> length (cursor p)"
      using Cons.prems(3) lock_step_length [OF Cons.prems(1)] by simp
    from Cons.IH [OF lock_step_start_caller [OF Cons.prems(1)] b len]
    obtain p' where p': "run cs ?q = Inr p'" "lock_step p'"
      "m_callStack p' = drop (Suc d) (m_callStack ?q)"
      "cursor p' = take (length (cursor ?q) - Suc d) (cursor ?q)"
      by blast
    have "cursor p' = take (length (cursor p) - d) (cursor p)"
      using p'(4) dl by (simp add: cursor_start_caller)
    then show ?thesis
      using p' Start by (simp add: stack_start_caller)
  next
    case (End t)
    let ?q = "ended t p"
    have d: "0 < d" "balanced_from (d - 1) cs" using Cons.prems(2) End by simp_all
    then have ne: "m_callStack p \<noteq> []" using Cons.prems(3) by auto
    have len: "d - 1 \<le> length (m_callStack ?q)"
      using Cons.prems(3) by (simp add: stack_ended)
    have cl: "d \<le> length (cursor p)" "cursor p \<noteq> []"
      using Cons.prems(3) lock_step_length [OF Cons.prems(1)] d(1) by auto
    from Cons.IH [OF lock_step_ended [OF Cons.prems(1) ne] d(2) len]
    obtain p' where p': "run cs ?q = Inr p'" "lock_step p'"
      "m_callStack p' = drop (d - 1) (m_callStack ?q)"
      "cursor p' = take (length (cursor ?q) - (d - 1)) (cursor ?q)"
      by blast
    have "drop (d - 1) (tl (m_callStack p)) = drop d (m_callStack p)"
      using d(1) by (simp add: drop_Suc [symmetric])
    moreover have "take (length (butlast (cursor p)) - (d - 1)) (butlast (cursor p))
                   = take (length (cursor p) - d) (cursor p)"
      using d(1) cl by (simp add: take_butlast)
    ultimately show ?thesis
      using p' End end_caller_ended [OF Cons.prems(1) ne]
      by (simp add: stack_ended cursor_ended)
  qed
qed

text \<open>Every state reached from the fresh profiler by such a sequence is in lock-step.\<close>

lemma reachable_lock_step:
  "nested_from 0 cs \<Longrightarrow> \<exists>p. run cs CallProfiler_init = Inr p \<and> lock_step p"
  using run_nested [OF lock_step_init, of 0 cs] by simp

lemma balanced_nested_take: "balanced_from d cs \<Longrightarrow> nested_from d (take k cs)"
proof (induction cs arbitrary: d k)
  case Nil
  then show ?case by simp
next
  case (Cons c cs)
  then show ?case by (cases k; cases c) auto
qed

text \<open>
  C5. After a balanced sequence of calls the stack and the cursor are what they were
  before it; started with an empty stack, the stack is empty again and the cursor is back
  at the root. After every prefix of the sequence the stack is as deep as the cursor.
\<close>

theorem stack_cursor_lock_step:
  assumes "lock_step p" and "balanced cs"
  shows "\<exists>p'. run cs p = Inr p'
           \<and> m_callStack p' = m_callStack p \<and> cursor p' = cursor p
           \<and> (m_callStack p = [] \<longrightarrow> m_callStack p' = [] \<and> m_current_node (m_radixTree p') = [])
           \<and> (\<forall>k \<le> length cs. \<exists>q. run (take k cs) p = Inr q
                 \<and> length (m_callStack q) = length (m_current_node (m_radixTree q)))"
proof -
  have b: "balanced_from 0 cs" using assms(2) by (simp add: balanced_def)
  from run_balanced_from [OF assms(1) b]
  obtain p' where p': "run cs p = Inr p'" "m_callStack p' = m_callStack p" "cursor p' = cursor p"
    by auto
  have root: "m_callStack p = [] \<longrightarrow> m_callStack p' = [] \<and> m_current_node (m_radixTree p') = []"
    using p'(2,3) lock_step_cursor_Nil [OF assms(1)] by (simp add: cursor_def)
  have mid: "\<exists>q. run (take k cs) p = Inr q
                 \<and> length (m_callStack q) = length (m_current_node (m_radixTree q))" for k
  proof -
    from run_nested [OF assms(1) balanced_nested_take [OF b, of k]]
    obtain q where "run (take k cs) p = Inr q" "lock_step q" by auto
    then show ?thesis using lock_step_length [of q] by (auto simp: cursor_def)
  qed
  show ?thesis using p' root mid by blast
qed

theorem stack_cursor_lock_step_witness:
  "lock_step CallProfiler_init
   \<and> balanced [Start ''outer'' 0, Start ''inner'' 1000000, End 3000000, End 5000000]
   \<and> (\<exists>p'. run [Start ''outer'' 0, Start ''inner'' 1000000, End 3000000, End 5000000]
             CallProfiler_init = Inr p'
          \<and> m_callStack p' = [] \<and> m_current_node (m_radixTree p') = [])"
proof -
  have l: "lock_step CallProfiler_init"
    by (simp add: lock_step_def CallProfiler_init_def RadixTree_init_def get_current_node_def)
  have b: "balanced [Start ''outer'' 0, Start ''inner'' 1000000, End 3000000, End 5000000]"
    by (simp add: balanced_def)
  have "m_callStack CallProfiler_init = []" by (simp add: CallProfiler_init_def)
  then show ?thesis using stack_cursor_lock_step [OF l b] l b by auto
qed

section \<open>Elapsed time\<close>

lemma sint_duration_cast_ms: "sint (duration_cast_ms d) = sint d sdiv 1000000"
proof -
  have b: "- (2 ^ 63) \<le> sint d" "sint d < 2 ^ 63"
    using sint_ge [of d] sint_lt [of d] by simp_all
  have "0 \<le> \<bar>sint d\<bar> div 1000000" "\<bar>sint d\<bar> div 1000000 \<le> \<bar>sint d\<bar>"
    by simp_all
  then have "- (2 ^ 63) \<le> sint d sdiv 1000000 \<and> sint d sdiv 1000000 < 2 ^ 63"
    using b by (auto simp: signed_divide_int_def sgn_if)
  then show ?thesis
    by (simp add: duration_cast_ms_def ticks_per_ms_def sint_sbintrunc' signed_take_bit_int_eq_self)
qed

lemma sint_duration_cast_ms_trunc:
  "sint (duration_cast_ms d) = sgn (sint d) * (\<bar>sint d\<bar> div 1000000)"
  by (simp add: sint_duration_cast_ms signed_divide_int_def)

lemma sint_diff_exact:
  "- (2 ^ 63) \<le> sint (a :: 64 word) - sint (b :: 64 word) \<Longrightarrow> sint a - sint b < 2 ^ 63 \<Longrightarrow>
     sint (a - b) = sint a - sint b"
  by (simp add: sint_word_diff signed_take_bit_int_eq_self)



text \<open>
  C7. The \<open>end_caller\<close> that matches a \<open>start_caller\<close> (any balanced sequence of
  calls may lie between the two) takes the 64-bit difference of its own clock reading and
  the reading the start stored, converts it to whole milliseconds truncating towards zero,
  and adds that once to the cumulative time of the node of the call; no other payload
  changes. Where the difference of the two readings fits 64 bits it is their difference.
\<close>

theorem end_caller_elapsed:
  assumes "lock_step p" and "balanced cs"
  shows "\<exists>p1 p2 pr.
           run cs (start_caller k t0 p) = Inr p1
         \<and> end_caller t1 p1 = Inr p2
         \<and> profile_at p1 (cursor p @ [k]) = Some pr
         \<and> profile_at p2 (cursor p @ [k]) =
             Some (pr\<lparr>totalTime := totalTime pr + duration_cast_ms (t1 - t0),
                      callCount := callCount pr + 1,
                      CallerProfile.callerName := k\<rparr>)
         \<and> (\<forall>r. r \<noteq> cursor p @ [k] \<longrightarrow> profile_at p2 r = profile_at p1 r)
         \<and> sint (duration_cast_ms (t1 - t0)) =
             sgn (sint (t1 - t0)) * (\<bar>sint (t1 - t0)\<bar> div 1000000)
         \<and> (- (2 ^ 63) \<le> sint t1 - sint t0 \<and> sint t1 - sint t0 < 2 ^ 63 \<longrightarrow>
              sint (t1 - t0) = sint t1 - sint t0)"
proof -
  let ?q = "start_caller k t0 p"
  have lq: "lock_step ?q" by (rule lock_step_start_caller [OF assms(1)])
  have b: "balanced_from 0 cs" using assms(2) by (simp add: balanced_def)
  from run_balanced_from [OF lq b]
  obtain p1 where p1: "run cs ?q = Inr p1" "lock_step p1" "m_callStack p1 = m_callStack ?q"
    "cursor p1 = cursor ?q"
    by auto
  have st: "m_callStack p1 = \<lparr>callerName = k, startTime = t0\<rparr> # m_callStack p"
    using p1(3) by (simp add: stack_start_caller)
  have cur: "cursor p1 = cursor p @ [k]" using p1(4) by (simp add: cursor_start_caller)
  have ne: "m_callStack p1 \<noteq> []" using st by simp
  obtain pr where pr: "profile_at p1 (cursor p @ [k]) = Some pr"
    using lock_step_current [OF p1(2)] cur by auto
  have e: "end_caller t1 p1 = Inr (ended t1 p1)" by (rule end_caller_ended [OF p1(2) ne])
  have upd: "profile_at (ended t1 p1) (cursor p @ [k]) =
      Some (pr\<lparr>totalTime := totalTime pr + duration_cast_ms (t1 - t0),
               callCount := callCount pr + 1,
               CallerProfile.callerName := k\<rparr>)"
    using pr cur st by (simp add: profile_at_ended update_profile_def)
  have frame: "\<forall>r. r \<noteq> cursor p @ [k] \<longrightarrow> profile_at (ended t1 p1) r = profile_at p1 r"
    using cur by (simp add: profile_at_ended)
  have tr: "sint (duration_cast_ms (t1 - t0)) =
             sgn (sint (t1 - t0)) * (\<bar>sint (t1 - t0)\<bar> div 1000000)"
    by (rule sint_duration_cast_ms_trunc)
  have ex: "- (2 ^ 63) \<le> sint t1 - sint t0 \<and> sint t1 - sint t0 < 2 ^ 63 \<longrightarrow>
              sint (t1 - t0) = sint t1 - sint t0"
    using sint_diff_exact [of t1 t0] by blast
  show ?thesis using p1(1) e pr upd frame tr ex by blast
qed

theorem end_caller_elapsed_witness:
  "lock_step CallProfiler_init \<and> balanced [Start ''g'' 100, End 200]
   \<and> (\<exists>p1 p2. run [Start ''g'' 100, End 200] (start_caller ''f'' 0 CallProfiler_init) = Inr p1
         \<and> end_caller 2600000 p1 = Inr p2
         \<and> profile_at p2 [''f''] = Some \<lparr>CallerProfile.callerName = ''f'', totalTime = 2, callCount = 1\<rparr>)
   \<and> sint (duration_cast_ms (2600000 - 0)) = 2
   \<and> sint (duration_cast_ms (0 - 2600000)) = - 2
   \<and> sint (duration_cast_ms (9000000000000000000 - (- 9000000000000000000))) = - 446744073709"
proof -
  have l: "lock_step CallProfiler_init" by (simp add: eval_defs)
  have b: "balanced [Start ''g'' 100, End 200]" by (simp add: balanced_def)
  from end_caller_elapsed [OF l b, of "''f''" 0 2600000]
  obtain p1 p2 where "run [Start ''g'' 100, End 200] (start_caller ''f'' 0 CallProfiler_init) = Inr p1"
    "end_caller 2600000 p1 = Inr p2"
    by blast
  then show ?thesis using l b by (auto simp: eval_defs)
qed

text \<open>
  Precision below a millisecond is lost at each addition: two calls of 0.6 ms each add
  0 ms twice, although 1.2 ms have passed.
\<close>

lemma sub_millisecond_not_accumulated:
  "\<exists>p'. run [Start ''f'' 0, End 600000, Start ''f'' 600000, End 1200000] CallProfiler_init = Inr p'
        \<and> time_at p' [''f''] = 0 \<and> duration_cast_ms (1200000 - 0) = 1"
  by (simp add: eval_defs time_at_def)

section \<open>Cumulative time\<close>








section \<open>Accumulation by path\<close>

lemma calls_at_start_caller: "calls_at (start_caller k t p) r = calls_at p r"
  by (auto simp: calls_at_def profile_at_start_caller CallerProfile_empty_def)

lemma time_at_start_caller: "time_at (start_caller k t p) r = time_at p r"
  by (auto simp: time_at_def profile_at_start_caller CallerProfile_empty_def)

lemma calls_at_ended:
  "lock_step p \<Longrightarrow> calls_at (ended t p) r = calls_at p r + (if r = cursor p then 1 else 0)"
  using lock_step_current [of p]
  by (auto simp: calls_at_def profile_at_ended update_profile_def)

lemma time_at_ended:
  "lock_step p \<Longrightarrow>
   time_at (ended t p) r =
     time_at p r + (if r = cursor p then duration_cast_ms (t - startTime (hd (m_callStack p))) else 0)"
  using lock_step_current [of p]
  by (auto simp: time_at_def profile_at_ended update_profile_def)

lemma run_accumulates:
  "lock_step p \<Longrightarrow> nested_from d cs \<Longrightarrow> d \<le> length (m_callStack p) \<Longrightarrow> run cs p = Inr p' \<Longrightarrow>
     calls_at p' r = calls_at p r + of_nat (length (completions_at p cs r))
     \<and> time_at p' r = time_at p r + sum_list (completions_at p cs r)"
proof (induction cs arbitrary: d p)
  case Nil
  then show ?case by (simp add: completions_at_def)
next
  case (Cons c cs)
  show ?case
  proof (cases c)
    case (Start k t')
    let ?q = "start_caller k t' p"
    have n: "nested_from (Suc d) cs" using Cons.prems(2) Start by simp
    have len: "Suc d \<le> length (m_callStack ?q)"
      using Cons.prems(3) by (simp add: stack_start_caller)
    have run: "run cs ?q = Inr p'" using Cons.prems(4) Start by simp
    have "completions_at p (c # cs) r = completions_at ?q cs r"
      using Start by (simp add: completions_at_def cursor_start_caller stack_start_caller)
    then show ?thesis
      using Cons.IH [OF lock_step_start_caller [OF Cons.prems(1)] n len run]
      by (simp add: calls_at_start_caller time_at_start_caller)
  next
    case (End t')
    let ?q = "ended t' p"
    have d: "0 < d" "nested_from (d - 1) cs" using Cons.prems(2) End by simp_all
    then have ne: "m_callStack p \<noteq> []" using Cons.prems(3) by auto
    have e: "end_caller t' p = Inr ?q" by (rule end_caller_ended [OF Cons.prems(1) ne])
    have run: "run cs ?q = Inr p'" using Cons.prems(4) End e by simp
    have len: "d - 1 \<le> length (m_callStack ?q)" using Cons.prems(3) by (simp add: stack_ended)
    have "completions_at p (c # cs) r =
            (if r = cursor p then [duration_cast_ms (t' - startTime (hd (m_callStack p)))] else [])
            @ completions_at ?q cs r"
      using End ne by (auto simp: completions_at_def cursor_ended stack_ended hd_map map_tl)
    then show ?thesis
      using Cons.IH [OF lock_step_ended [OF Cons.prems(1) ne] d(2) len run]
      by (simp add: calls_at_ended [OF Cons.prems(1)] time_at_ended [OF Cons.prems(1)])
  qed
qed

lemma run_keeps_nodes:
  "lock_step p \<Longrightarrow> nested_from d cs \<Longrightarrow> d \<le> length (m_callStack p) \<Longrightarrow> run cs p = Inr p' \<Longrightarrow>
   profile_at p r \<noteq> None \<Longrightarrow> profile_at p' r \<noteq> None"
proof (induction cs arbitrary: d p)
  case Nil
  then show ?case by simp
next
  case (Cons c cs)
  show ?case
  proof (cases c)
    case (Start k t')
    let ?q = "start_caller k t' p"
    have n: "nested_from (Suc d) cs" using Cons.prems(2) Start by simp
    have len: "Suc d \<le> length (m_callStack ?q)"
      using Cons.prems(3) by (simp add: stack_start_caller)
    have run: "run cs ?q = Inr p'" using Cons.prems(4) Start by simp
    have ex: "profile_at ?q r \<noteq> None" using Cons.prems(5) by (simp add: profile_at_start_caller)
    show ?thesis
      by (rule Cons.IH [OF lock_step_start_caller [OF Cons.prems(1)] n len run ex])
  next
    case (End t')
    let ?q = "ended t' p"
    have d: "0 < d" "nested_from (d - 1) cs" using Cons.prems(2) End by simp_all
    then have ne: "m_callStack p \<noteq> []" using Cons.prems(3) by auto
    have e: "end_caller t' p = Inr ?q" by (rule end_caller_ended [OF Cons.prems(1) ne])
    have run: "run cs ?q = Inr p'" using Cons.prems(4) End e by simp
    have len: "d - 1 \<le> length (m_callStack ?q)" using Cons.prems(3) by (simp add: stack_ended)
    have ex: "profile_at ?q r \<noteq> None" using Cons.prems(5) by (auto simp: profile_at_ended)
    show ?thesis
      by (rule Cons.IH [OF lock_step_ended [OF Cons.prems(1) ne] d(2) len run ex])
  qed
qed

lemma run_completed_exists:
  "lock_step p \<Longrightarrow> nested_from d cs \<Longrightarrow> d \<le> length (m_callStack p) \<Longrightarrow> run cs p = Inr p' \<Longrightarrow>
   completions_at p cs r \<noteq> [] \<Longrightarrow> profile_at p' r \<noteq> None"
proof (induction cs arbitrary: d p)
  case Nil
  then show ?case by (simp add: completions_at_def)
next
  case (Cons c cs)
  show ?case
  proof (cases c)
    case (Start k t')
    let ?q = "start_caller k t' p"
    have n: "nested_from (Suc d) cs" using Cons.prems(2) Start by simp
    have len: "Suc d \<le> length (m_callStack ?q)"
      using Cons.prems(3) by (simp add: stack_start_caller)
    have run: "run cs ?q = Inr p'" using Cons.prems(4) Start by simp
    have ex: "completions_at ?q cs r \<noteq> []"
      using Cons.prems(5) Start by (simp add: completions_at_def cursor_start_caller stack_start_caller)
    show ?thesis
      by (rule Cons.IH [OF lock_step_start_caller [OF Cons.prems(1)] n len run ex])
  next
    case (End t')
    let ?q = "ended t' p"
    have d: "0 < d" "nested_from (d - 1) cs" using Cons.prems(2) End by simp_all
    then have ne: "m_callStack p \<noteq> []" using Cons.prems(3) by auto
    have e: "end_caller t' p = Inr ?q" by (rule end_caller_ended [OF Cons.prems(1) ne])
    have run: "run cs ?q = Inr p'" using Cons.prems(4) End e by simp
    have len: "d - 1 \<le> length (m_callStack ?q)" using Cons.prems(3) by (simp add: stack_ended)
    show ?thesis
    proof (cases "r = cursor p")
      case True
      then have "profile_at ?q r \<noteq> None"
        using lock_step_current [OF Cons.prems(1)] by (auto simp: profile_at_ended)
      then show ?thesis
        by (rule run_keeps_nodes [OF lock_step_ended [OF Cons.prems(1) ne] d(2) len run])
    next
      case False
      then have ex: "completions_at ?q cs r \<noteq> []"
        using Cons.prems(5) End ne
        by (simp add: completions_at_def cursor_ended stack_ended map_tl)
      show ?thesis
        by (rule Cons.IH [OF lock_step_ended [OF Cons.prems(1) ne] d(2) len run ex])
    qed
  qed
qed

text \<open>
  C3. Take a callee name \<open>b\<close> and two different parent contexts \<open>q1\<close> and \<open>q2\<close>.
  The paths \<open>q1 @ [b]\<close> and \<open>q2 @ [b]\<close> are two places of the tree. After any call
  sequence the count and the time at each of them have grown by exactly the calls completed
  at that very path, whatever happened at the other, and a path at which a call completed
  has a node.
\<close>

theorem path_disambiguation:
  assumes "lock_step p" and "nested_from (length (m_callStack p)) cs" and "q1 \<noteq> q2"
  shows "\<exists>p'. run cs p = Inr p'
          \<and> q1 @ [b] \<noteq> q2 @ [b]
          \<and> (\<forall>q \<in> {q1, q2}.
                calls_at p' (q @ [b]) =
                  calls_at p (q @ [b]) + of_nat (length (completions_at p cs (q @ [b])))
              \<and> time_at p' (q @ [b]) =
                  time_at p (q @ [b]) + sum_list (completions_at p cs (q @ [b]))
              \<and> (completions_at p cs (q @ [b]) \<noteq> [] \<longrightarrow>
                   (\<exists>pr. profile_at p' (q @ [b]) = Some pr)))"
proof -
  from run_nested [OF assms(1,2)] obtain p' where p': "run cs p = Inr p'" by auto
  have each: "calls_at p' r = calls_at p r + of_nat (length (completions_at p cs r))
              \<and> time_at p' r = time_at p r + sum_list (completions_at p cs r)
              \<and> (completions_at p cs r \<noteq> [] \<longrightarrow> (\<exists>pr. profile_at p' r = Some pr))" for r
    using run_accumulates [OF assms(1,2) _ p', of r] run_completed_exists [OF assms(1,2) _ p', of r]
    by auto
  show ?thesis using p' assms(3) each by auto
qed

theorem path_disambiguation_witness:
  "lock_step CallProfiler_init
   \<and> nested_from (length (m_callStack CallProfiler_init))
        [Start ''A'' 0, Start ''B'' 1000000, End 3000000, End 3000000,
         Start ''C'' 4000000, Start ''B'' 4000000, End 9500000, End 9500000]
   \<and> [''A''] \<noteq> [''C'']
   \<and> (\<exists>p'. run [Start ''A'' 0, Start ''B'' 1000000, End 3000000, End 3000000,
                 Start ''C'' 4000000, Start ''B'' 4000000, End 9500000, End 9500000]
              CallProfiler_init = Inr p'
          \<and> calls_at p' [''A'', ''B''] = 1 \<and> time_at p' [''A'', ''B''] = 2
          \<and> calls_at p' [''C'', ''B''] = 1 \<and> time_at p' [''C'', ''B''] = 5
          \<and> profile_at p' [''A'', ''B''] \<noteq> None \<and> profile_at p' [''C'', ''B''] \<noteq> None)"
proof -
  let ?cs = "[Start ''A'' 0, Start ''B'' 1000000, End 3000000, End 3000000,
         Start ''C'' 4000000, Start ''B'' 4000000, End 9500000, End 9500000]"
  have l: "lock_step CallProfiler_init" by (simp add: eval_defs)
  have n: "nested_from (length (m_callStack CallProfiler_init)) ?cs" by (simp add: eval_defs)
  have d: "[''A''] \<noteq> [''C'']" by simp
  have c: "completions_at CallProfiler_init ?cs [''A'', ''B''] = [2]"
       "completions_at CallProfiler_init ?cs [''C'', ''B''] = [5]"
    by (simp_all add: completions_at_def eval_defs)
  have z: "calls_at CallProfiler_init [''A'', ''B''] = 0" "time_at CallProfiler_init [''A'', ''B''] = 0"
       "calls_at CallProfiler_init [''C'', ''B''] = 0" "time_at CallProfiler_init [''C'', ''B''] = 0"
    by (simp_all add: calls_at_def time_at_def eval_defs)
  from path_disambiguation [OF l n d, of "''B''"]
  show ?thesis using l n c z by auto
qed

section \<open>Repeated calls of one name\<close>

lemma nested_repeat_pairs: "nested_from d (repeat_pairs k ts)"
  by (induction ts arbitrary: d) simp_all

lemma balanced_repeat_pairs: "balanced_from 0 (repeat_pairs k ts)"
  by (induction ts) simp_all

lemma completions_repeat_pairs:
  "completions cur st (repeat_pairs k ts) =
     map (\<lambda>tt. (cur @ [k], duration_cast_ms (snd tt - fst tt))) ts"
  by (induction ts) simp_all

lemma completions_at_repeat_pairs:
  "completions_at p (repeat_pairs k ts) (cursor p @ [k]) =
     map (\<lambda>tt. duration_cast_ms (snd tt - fst tt)) ts"
  by (simp add: completions_at_def completions_repeat_pairs comp_def)

lemma child_names_start_caller:
  assumes "lock_step p"
  shows "child_names (start_caller k t p) (cursor p) =
           child_names p (cursor p) @ (if k \<in> set (child_names p (cursor p)) then [] else [k])"
proof -
  obtain m where m: "node_at (m_root (m_radixTree p)) (cursor p) = Some m"
    using assms by (auto simp: lock_step_def get_current_node_def cursor_def)
  have "node_at (m_root (m_radixTree (start_caller k t p))) (cursor p) = Some (ensure_child k m)"
    using m by (simp add: start_caller_def entry_def cursor_def node_at_modify_at_same)
  moreover have "map name (children (ensure_child k m)) =
      map name (children m) @ (if k \<in> set (map name (children m)) then [] else [k])"
    using get_child_None_iff [of k "children m"]
    by (cases "get_child k (children m)") (auto simp: ensure_child_def add_child_def)
  ultimately show ?thesis using m by (simp add: child_names_def)
qed

lemma child_names_ended:
  assumes "cursor p \<noteq> []"
  shows "child_names (ended t p) (butlast (cursor p)) = child_names p (butlast (cursor p))"
proof -
  let ?f = "set_data (update_profile (duration_cast_ms (t - startTime (hd (m_callStack p))))
                        (CallerInfo.callerName (hd (m_callStack p))))"
  have "cursor p = butlast (cursor p) @ [last (cursor p)]" using assms by simp
  then have "m_root (m_radixTree (ended t p)) =
      modify_at (butlast (cursor p) @ [last (cursor p)]) ?f (m_root (m_radixTree p))"
    by (simp add: ended_def)
  then have "node_at (m_root (m_radixTree (ended t p))) (butlast (cursor p)) =
      map_option (modify_at [last (cursor p)] ?f) (node_at (m_root (m_radixTree p)) (butlast (cursor p)))"
    by (simp only: node_at_modify_at_prefix [OF keeps_name_set_data])
  then show ?thesis
    by (cases "node_at (m_root (m_radixTree p)) (butlast (cursor p))")
       (simp_all add: child_names_def map_name_map_child)
qed

lemma child_names_repeat_pairs:
  "lock_step p \<Longrightarrow> run (repeat_pairs k ts) p = Inr p' \<Longrightarrow>
     child_names p' (cursor p) =
       child_names p (cursor p) @ (if ts = [] \<or> k \<in> set (child_names p (cursor p)) then [] else [k])"
proof (induction ts arbitrary: p)
  case Nil
  then show ?case by simp
next
  case (Cons tt ts)
  let ?q = "start_caller k (fst tt) p"
  let ?r = "ended (snd tt) ?q"
  have lq: "lock_step ?q" by (rule lock_step_start_caller [OF Cons.prems(1)])
  have ne: "m_callStack ?q \<noteq> []" by (simp add: stack_start_caller)
  have e: "end_caller (snd tt) ?q = Inr ?r" by (rule end_caller_ended [OF lq ne])
  have lr: "lock_step ?r" by (rule lock_step_ended [OF lq ne])
  have cr: "cursor ?r = cursor p" by (simp add: cursor_ended cursor_start_caller)
  have run: "run (repeat_pairs k ts) ?r = Inr p'" using Cons.prems(2) e by simp
  have "child_names ?r (cursor p) = child_names ?q (cursor p)"
    using child_names_ended [of ?q "snd tt"] by (simp add: cursor_start_caller)
  then have names: "child_names ?r (cursor p) =
      child_names p (cursor p) @ (if k \<in> set (child_names p (cursor p)) then [] else [k])"
    by (simp add: child_names_start_caller [OF Cons.prems(1)])
  have "child_names p' (cursor ?r) =
       child_names ?r (cursor ?r) @ (if ts = [] \<or> k \<in> set (child_names ?r (cursor ?r)) then [] else [k])"
    by (rule Cons.IH [OF lr run])
  then show ?case using names cr by auto
qed

lemma absent_child_profile:
  "lock_step p \<Longrightarrow> k \<notin> set (child_names p (cursor p)) \<Longrightarrow> profile_at p (cursor p @ [k]) = None"
proof -
  assume l: "lock_step p" and k: "k \<notin> set (child_names p (cursor p))"
  obtain m where m: "node_at (m_root (m_radixTree p)) (cursor p) = Some m"
    using l by (auto simp: lock_step_def get_current_node_def cursor_def)
  have "get_child k (children m) = None"
    using k m by (simp add: child_names_def get_child_None_iff)
  then show ?thesis
    using m by (simp add: profile_at_def profile_of_def node_at_append)
qed

lemma run_repeat_pairs:
  assumes "lock_step p" and "k \<notin> set (child_names p (cursor p))" and "ts \<noteq> []"
  shows "\<exists>p' pr. run (repeat_pairs k ts) p = Inr p'
          \<and> cursor p' = cursor p \<and> m_callStack p' = m_callStack p
          \<and> child_names p' (cursor p) = child_names p (cursor p) @ [k]
          \<and> profile_at p' (cursor p @ [k]) = Some pr
          \<and> callCount pr = of_nat (length ts)
          \<and> totalTime pr = sum_list (map (\<lambda>tt. duration_cast_ms (snd tt - fst tt)) ts)"
proof -
  from run_balanced_from [OF assms(1) balanced_repeat_pairs [of k ts]]
  obtain p' where p': "run (repeat_pairs k ts) p = Inr p'" "m_callStack p' = m_callStack p"
    "cursor p' = cursor p"
    by auto
  have n: "nested_from 0 (repeat_pairs k ts)" by (rule nested_repeat_pairs)
  have acc: "calls_at p' (cursor p @ [k]) = calls_at p (cursor p @ [k]) + of_nat (length ts)"
      "time_at p' (cursor p @ [k]) = time_at p (cursor p @ [k])
         + sum_list (map (\<lambda>tt. duration_cast_ms (snd tt - fst tt)) ts)"
    using run_accumulates [OF assms(1) n _ p'(1), of "cursor p @ [k]"]
    by (simp_all add: completions_at_repeat_pairs)
  have "completions_at p (repeat_pairs k ts) (cursor p @ [k]) \<noteq> []"
    using assms(3) by (simp add: completions_at_repeat_pairs)
  then have "profile_at p' (cursor p @ [k]) \<noteq> None"
    using run_completed_exists [OF assms(1) n _ p'(1)] by simp
  then obtain pr where pr: "profile_at p' (cursor p @ [k]) = Some pr" by auto
  have none: "profile_at p (cursor p @ [k]) = None"
    by (rule absent_child_profile [OF assms(1,2)])
  have "callCount pr = of_nat (length ts)"
    using acc(1) pr none by (simp add: calls_at_def)
  moreover have "totalTime pr = sum_list (map (\<lambda>tt. duration_cast_ms (snd tt - fst tt)) ts)"
    using acc(2) pr none by (simp add: time_at_def)
  moreover have "child_names p' (cursor p) = child_names p (cursor p) @ [k]"
    using child_names_repeat_pairs [OF assms(1) p'(1)] assms(2,3) by simp
  ultimately show ?thesis using p' pr by blast
qed

lemma sint_of_nat_small: "n < 2 ^ 31 \<Longrightarrow> sint (of_nat n :: 32 word) = int n"
  by (simp add: signed_of_nat signed_take_bit_int_eq_self)

text \<open>
  C4, as amended. \<open>N\<close> brackets of a name that has no node yet under the current
  node, with \<open>1 \<le> N < 2^31\<close>, leave exactly one child of that name under the current node,
  and its invocation count is \<open>N\<close>.
\<close>

theorem repeated_calls_count:
  assumes "lock_step p" and "k \<notin> set (child_names p (cursor p))"
    and "ts \<noteq> []" and "length ts < 2 ^ 31"
  shows "invocation_count (run (repeat_pairs k ts) p) (cursor p @ [k]) = Some (int (length ts))
       \<and> (\<exists>p'. run (repeat_pairs k ts) p = Inr p'
             \<and> cursor p' = cursor p \<and> m_callStack p' = m_callStack p
             \<and> length (filter (\<lambda>c. c = k) (child_names p' (cursor p))) = 1)"
proof -
  from run_repeat_pairs [OF assms(1-3)]
  obtain p' pr where p': "run (repeat_pairs k ts) p = Inr p'"
    "cursor p' = cursor p" "m_callStack p' = m_callStack p"
    "child_names p' (cursor p) = child_names p (cursor p) @ [k]"
    "profile_at p' (cursor p @ [k]) = Some pr" "callCount pr = of_nat (length ts)"
    by blast
  have "filter (\<lambda>c. c = k) (child_names p (cursor p)) = []"
    using assms(2) by (auto simp: filter_empty_conv)
  then have "length (filter (\<lambda>c. c = k) (child_names p' (cursor p))) = 1"
    using p'(4) by simp
  moreover have "invocation_count (run (repeat_pairs k ts) p) (cursor p @ [k]) = Some (int (length ts))"
    using p'(1,5,6) sint_of_nat_small [OF assms(4)] by (simp add: invocation_count_def)
  ultimately show ?thesis using p' by blast
qed

theorem repeated_calls_count_witness:
  "lock_step CallProfiler_init
   \<and> ''f'' \<notin> set (child_names CallProfiler_init (cursor CallProfiler_init))
   \<and> [(0, 1500000), (2000000, 2400000), (3000000, 7000000)] \<noteq> []
   \<and> length [(0::64 word, 1500000::64 word), (2000000, 2400000), (3000000, 7000000)] < 2 ^ 31
   \<and> invocation_count
        (run (repeat_pairs ''f'' [(0, 1500000), (2000000, 2400000), (3000000, 7000000)])
             CallProfiler_init) [''f''] = Some 3"
  using repeated_calls_count
    [of CallProfiler_init "''f''" "[(0, 1500000), (2000000, 2400000), (3000000, 7000000)]"]
  by (simp add: lock_step_init cursor_init child_names_init)

text \<open>
  C4 as stated, for every \<open>N\<close>, fails where the C++ \<open>int\<close> ends: after \<open>2^31\<close>
  brackets the count reads \<open>-2^31\<close>.
\<close>

theorem repeated_calls_count_overflow:
  "invocation_count (run (repeat_pairs ''f'' (replicate (2 ^ 31) (0, 0))) CallProfiler_init) [''f'']
     = Some (- 2147483648)"
proof -
  have ne: "replicate (2 ^ 31) (0::64 word, 0::64 word) \<noteq> []" by simp
  have k: "''f'' \<notin> set (child_names CallProfiler_init (cursor CallProfiler_init))"
    by (simp add: cursor_init child_names_init)
  from run_repeat_pairs [OF lock_step_init k ne]
  obtain p' pr where p': "run (repeat_pairs ''f'' (replicate (2 ^ 31) (0, 0))) CallProfiler_init = Inr p'"
    "profile_at p' (cursor CallProfiler_init @ [''f'']) = Some pr"
    "callCount pr = of_nat (length (replicate (2 ^ 31) (0::64 word, 0::64 word)))"
    by blast
  have "callCount pr = (2 ^ 31 :: 32 word)" using p'(3) by simp
  then have "sint (callCount pr) = - 2147483648" by simp
  then show ?thesis using p'(1,2) by (simp add: invocation_count_def cursor_init)
qed

end
